theory Spec2Isabelle
  imports Main
begin

section \<open>Texts: the string operations find_header_row applies\<close>

text \<open>
  A Python \<open>str\<close> is modelled as a \<open>string\<close> whose characters are the code points
  below 256. \<open>is_space\<close> is \<open>str.isspace\<close> on one such character (the characters
  \<open>str.strip()\<close> removes), \<open>lower_char\<close> is \<open>str.lower\<close> on it.
\<close>

definition is_space :: "char \<Rightarrow> bool" where
  "is_space c =
     (let n = (of_char c :: nat)
      in (9 \<le> n \<and> n \<le> 13) \<or> (28 \<le> n \<and> n \<le> 32) \<or> n = 133 \<or> n = 160)"

definition lower_char :: "char \<Rightarrow> char" where
  "lower_char c =
     (let n = (of_char c :: nat)
      in if (65 \<le> n \<and> n \<le> 90) \<or> (192 \<le> n \<and> n \<le> 222 \<and> n \<noteq> 215)
         then char_of (n + 32) else c)"

definition strip :: "string \<Rightarrow> string" where
  \<comment> \<open>\<open>s.strip()\<close>: leading and trailing whitespace removed\<close>
  "strip s = rev (dropWhile is_space (rev (dropWhile is_space s)))"

definition lower :: "string \<Rightarrow> string" where
  \<comment> \<open>\<open>s.lower()\<close>\<close>
  "lower s = map lower_char s"

definition replace_newline :: "string \<Rightarrow> string" where
  \<comment> \<open>\<open>s.replace('\n', ' ')\<close>\<close>
  "replace_newline s = map (\<lambda>c. if c = CHR 0x0A then CHR '' '' else c) s"

fun join :: "string \<Rightarrow> string list \<Rightarrow> string" where
  \<comment> \<open>\<open>sep.join(xs)\<close>\<close>
  "join sep [] = []"
| "join sep [x] = x"
| "join sep (x # y # ys) = x @ sep @ join sep (y # ys)"

section \<open>The table and the schema\<close>

text \<open>
  A cell of the DataFrame is \<open>None\<close> where \<open>pd.notna(col)\<close> is false and \<open>Some s\<close>
  otherwise, \<open>s\<close> being \<open>str(col)\<close>. The DataFrame is the list of its rows, in order; a
  row's label \<open>i\<close> in \<open>iterrows()\<close> is its position (the RangeIndex that
  \<open>pd.read_csv(..., header=None)\<close> gives). A \<open>headers\<close> dictionary is the list of its
  items in insertion order: a header name with the list of its aliases.
\<close>

type_synonym cell = "string option"

type_synonym headers = "(string \<times> string list) list"

fun index_of :: "'a list \<Rightarrow> 'a \<Rightarrow> nat" where
  \<comment> \<open>\<open>xs.index(x)\<close>, the first position of \<open>x\<close>. Python raises ValueError when \<open>x\<close> is
      not in \<open>xs\<close>; find_header_row calls it only under the test \<open>x in xs\<close>.\<close>
  "index_of [] x = 0"
| "index_of (y # ys) x = (if y = x then 0 else Suc (index_of ys x))"

definition head_rows :: "int \<Rightarrow> 'a list \<Rightarrow> 'a list" where
  \<comment> \<open>\<open>dataframe.head(n)\<close>: the first \<open>n\<close> rows, all but the last \<open>-n\<close> for negative \<open>n\<close>\<close>
  "head_rows n rows =
     (if 0 \<le> n then take (nat n) rows else take (length rows - nat (- n)) rows)"

definition normalize_cell :: "cell \<Rightarrow> cell" where
  \<comment> \<open>\<open>str(col).strip().lower().replace('\n', ' ') if pd.notna(col) else None\<close>\<close>
  "normalize_cell col =
     (case col of None \<Rightarrow> None | Some s \<Rightarrow> Some (replace_newline (lower (strip s))))"

section \<open>find_header_row\<close>

record scan_state =
  collected_headers :: "string \<rightharpoonup> nat"
  missing_required_headers :: "string list"
  last_match_row :: "nat option"

definition match_required :: "nat \<Rightarrow> cell list \<Rightarrow> scan_state \<Rightarrow> string \<times> string list \<Rightarrow> scan_state" where
  \<comment> \<open>the body of the loop over \<open>self.required_headers.items()\<close>; the \<open>elif\<close> tests
      \<open>any(...)\<close> and then takes \<open>next(...)\<close> of the same generator, which is \<open>find\<close>\<close>
  "match_required i header_row st item =
     (let header = fst item; aliases = snd item;
          normalized_header = lower (strip header)
      in if Some normalized_header \<in> set header_row \<and> collected_headers st header = None
         then st\<lparr>collected_headers :=
                     (collected_headers st)(header \<mapsto> index_of header_row (Some normalized_header)),
                  missing_required_headers :=
                     (if header \<in> set (missing_required_headers st)
                      then remove1 header (missing_required_headers st)
                      else missing_required_headers st),
                  last_match_row := Some i\<rparr>
         else (case find (\<lambda>alias. Some (lower alias) \<in> set header_row) aliases of
                 None \<Rightarrow> st
               | Some alias \<Rightarrow>
                   st\<lparr>collected_headers :=
                        (collected_headers st)(header \<mapsto> index_of header_row (Some (lower alias))),
                      missing_required_headers :=
                        (if header \<in> set (missing_required_headers st)
                         then remove1 header (missing_required_headers st)
                         else missing_required_headers st),
                      last_match_row := Some i\<rparr>))"

definition match_optional :: "nat \<Rightarrow> cell list \<Rightarrow> scan_state \<Rightarrow> string \<times> string list \<Rightarrow> scan_state" where
  \<comment> \<open>the body of the loop over \<open>self.optional_headers.items()\<close>\<close>
  "match_optional i header_row st item =
     (let header = fst item; aliases = snd item;
          normalized_header = lower (strip header)
      in if Some normalized_header \<in> set header_row \<and> collected_headers st header = None
         then st\<lparr>collected_headers :=
                     (collected_headers st)(header \<mapsto> index_of header_row (Some normalized_header)),
                  last_match_row := Some i\<rparr>
         else (case find (\<lambda>alias. Some (lower alias) \<in> set header_row) aliases of
                 None \<Rightarrow> st
               | Some alias \<Rightarrow>
                   st\<lparr>collected_headers :=
                        (collected_headers st)(header \<mapsto> index_of header_row (Some (lower alias))),
                      last_match_row := Some i\<rparr>))"

definition scan_row :: "headers \<Rightarrow> headers \<Rightarrow> scan_state \<Rightarrow> nat \<times> cell list \<Rightarrow> scan_state" where
  \<comment> \<open>one iteration of the loop over the rows\<close>
  "scan_row required_headers optional_headers st irow =
     (let i = fst irow;
          header_row = map normalize_cell (snd irow);
          st1 = foldl (match_required i header_row) st required_headers
      in foldl (match_optional i header_row) st1 optional_headers)"

definition initial_state :: "headers \<Rightarrow> scan_state" where
  "initial_state required_headers =
     \<lparr>collected_headers = Map.empty,
      missing_required_headers = map fst required_headers,
      last_match_row = None\<rparr>"

definition scan_rows :: "headers \<Rightarrow> headers \<Rightarrow> cell list list \<Rightarrow> scan_state" where
  \<comment> \<open>the loop over the rows of the window, from the initial state\<close>
  "scan_rows required_headers optional_headers rows =
     foldl (scan_row required_headers optional_headers) (initial_state required_headers)
       (enumerate 0 rows)"

definition indices_of :: "(string \<rightharpoonup> nat) \<Rightarrow> headers \<Rightarrow> (string \<times> nat) list" where
  \<comment> \<open>\<open>{key: collected_headers[key] for key in hs if key in collected_headers}\<close>\<close>
  "indices_of collected hs =
     List.map_filter (\<lambda>key. map_option (Pair key) (collected key)) (map fst hs)"

type_synonym header_result =
  "nat option \<times> (string \<times> nat) list \<times> string list \<times> (string \<times> nat) list"

definition find_header_row :: "headers \<Rightarrow> headers \<Rightarrow> int \<Rightarrow> cell list list \<Rightarrow> header_result" where
  "find_header_row required_headers optional_headers max_rows dataframe =
     (let st = scan_rows required_headers optional_headers (head_rows max_rows dataframe);
          header_start_row = (case last_match_row st of None \<Rightarrow> None | Some r \<Rightarrow> Some (r + 1))
      in if \<not> (\<exists>key \<in> set (map fst required_headers). collected_headers st key \<noteq> None)
         then (None, [], missing_required_headers st, [])
         else (header_start_row,
               indices_of (collected_headers st) required_headers,
               missing_required_headers st,
               indices_of (collected_headers st) optional_headers))"

section \<open>parse_csv, after the file is read\<close>

datatype parse_result =
  Error string
| Parsed "nat option" "(string \<times> nat) list" "(string \<times> nat) list"

definition parse_csv :: "headers \<Rightarrow> headers \<Rightarrow> int \<Rightarrow> cell list list \<Rightarrow> parse_result" where
  \<comment> \<open>\<open>df\<close> is what \<open>pd.read_csv(csv_file_path, header=None)\<close> returned\<close>
  "parse_csv required_headers optional_headers max_rows df =
     (case find_header_row required_headers optional_headers max_rows df of
        (header_start_row, header_indices, missing_headers, optional_indices) \<Rightarrow>
          if length missing_headers > 0
          then Error (''Required headers not found: '' @ join '', '' missing_headers)
          else Parsed header_start_row header_indices optional_indices)"

section \<open>Notions the properties are stated with\<close>

definition matched_name :: "cell list \<Rightarrow> (string \<rightharpoonup> nat) \<Rightarrow> string \<times> string list \<Rightarrow> string option" where
  \<comment> \<open>the name that the loop body looks up with \<open>header_row.index\<close> for an item:
      \<open>normalized_header\<close> when the \<open>if\<close> test holds, else \<open>alias_match\<close> when the \<open>elif\<close> test
      holds; None when neither branch is taken\<close>
  "matched_name header_row collected item =
     (if Some (lower (strip (fst item))) \<in> set header_row \<and> collected (fst item) = None
      then Some (lower (strip (fst item)))
      else map_option lower (find (\<lambda>alias. Some (lower alias) \<in> set header_row) (snd item)))"

definition core :: "scan_state \<Rightarrow> (string \<rightharpoonup> nat) \<times> nat option" where
  \<comment> \<open>the part of the state both loop bodies update in the same way\<close>
  "core st = (collected_headers st, last_match_row st)"

definition core_step ::
  "nat \<Rightarrow> cell list \<Rightarrow> (string \<rightharpoonup> nat) \<times> nat option \<Rightarrow> string \<times> string list
    \<Rightarrow> (string \<rightharpoonup> nat) \<times> nat option" where
  \<comment> \<open>what either loop body does to \<open>collected_headers\<close> and \<open>last_match_row\<close>\<close>
  "core_step i header_row cl item =
     (case matched_name header_row (fst cl) item of
        None \<Rightarrow> cl
      | Some n \<Rightarrow> ((fst cl)(fst item \<mapsto> index_of header_row (Some n)), Some i))"

definition item_in_row :: "string \<times> string list \<Rightarrow> cell list \<Rightarrow> bool" where
  \<comment> \<open>the row matches the header: the test of the \<open>if\<close> without its
      \<open>not in collected_headers\<close> part, or the test of the \<open>elif\<close>\<close>
  "item_in_row item row =
     (Some (lower (strip (fst item))) \<in> set (map normalize_cell row) \<or>
      (\<exists>alias \<in> set (snd item). Some (lower alias) \<in> set (map normalize_cell row)))"

definition missing_inv :: "string list \<Rightarrow> scan_state \<Rightarrow> bool" where
  \<comment> \<open>the loop invariant: the missing headers are the names not collected so far\<close>
  "missing_inv names st \<longleftrightarrow>
     missing_required_headers st = filter (\<lambda>h. collected_headers st h = None) names"

definition unmatched_required :: "headers \<Rightarrow> cell list list \<Rightarrow> string list" where
  \<comment> \<open>the names of the required headers that no row of the window holds, in the
      dictionary's order\<close>
  "unmatched_required required rows =
     map fst (filter (\<lambda>item. \<not> (\<exists>row \<in> set rows. item_in_row item row)) required)"

definition row_records :: "headers \<Rightarrow> cell list list \<Rightarrow> nat \<Rightarrow> bool" where
  \<comment> \<open>row \<open>i\<close> records a column for some header: it holds one of the header's aliases, or
      it holds the header's name and no earlier row holds the name or an alias of it\<close>
  "row_records items rows i =
     (\<exists>item \<in> set items.
        (\<exists>alias \<in> set (snd item). Some (lower alias) \<in> set (map normalize_cell (rows ! i))) \<or>
        (Some (lower (strip (fst item))) \<in> set (map normalize_cell (rows ! i)) \<and>
         \<not> (\<exists>row \<in> set (take i rows). item_in_row item row)))"

definition from_present_cell :: "headers \<Rightarrow> cell list list \<Rightarrow> string \<Rightarrow> nat \<Rightarrow> bool" where
  \<comment> \<open>column \<open>j\<close> of some row holds a present cell whose normalized text is the
      normalized name or a lowercased alias of a header called \<open>header\<close>\<close>
  "from_present_cell items rows header j =
     (\<exists>item \<in> set items. fst item = header \<and>
        (\<exists>row \<in> set rows. j < length row \<and>
           (case row ! j of
              None \<Rightarrow> False
            | Some s \<Rightarrow>
                replace_newline (lower (strip s)) = lower (strip header) \<or>
                (\<exists>alias \<in> set (snd item). replace_newline (lower (strip s)) = lower alias))))"

definition first_match_row :: "headers \<Rightarrow> cell list list \<Rightarrow> nat \<Rightarrow> bool" where
  \<comment> \<open>row \<open>i\<close> is the first row that holds the name or an alias of some header\<close>
  "first_match_row items rows i =
     (\<exists>item \<in> set items. item_in_row item (rows ! i) \<and>
        \<not> (\<exists>row \<in> set (take i rows). item_in_row item row))"

definition no_alias_rematch :: "headers \<Rightarrow> cell list list \<Rightarrow> bool" where
  \<comment> \<open>no row holds an alias of a header whose name or alias an earlier row holds\<close>
  "no_alias_rematch items rows =
     (\<not> (\<exists>item \<in> set items. \<exists>i \<in> set [0..<length rows].
           (\<exists>alias \<in> set (snd item). Some (lower alias) \<in> set (map normalize_cell (rows ! i))) \<and>
           (\<exists>row \<in> set (take i rows). item_in_row item row)))"

lemma fst_core_step:
  "fst (core_step i hr cl x) h =
     (case matched_name hr (fst cl) x of
        None \<Rightarrow> fst cl h
      | Some n \<Rightarrow> if h = fst x then Some (index_of hr (Some n)) else fst cl h)"
  by (simp add: core_step_def split: option.splits)

lemma snd_core_step:
  "snd (core_step i hr cl x) =
     (case matched_name hr (fst cl) x of None \<Rightarrow> snd cl | Some n \<Rightarrow> Some i)"
  by (simp add: core_step_def split: option.splits)

lemma core_match_required: "core (match_required i hr st item) = core_step i hr (core st) item"
  by (simp add: core_def core_step_def match_required_def matched_name_def Let_def
      split: option.splits)

lemma core_match_optional: "core (match_optional i hr st item) = core_step i hr (core st) item"
  by (simp add: core_def core_step_def match_optional_def matched_name_def Let_def
      split: option.splits)

lemma core_foldl_required:
  "core (foldl (match_required i hr) st items) = foldl (core_step i hr) (core st) items"
  by (induction items arbitrary: st) (simp_all add: core_match_required)

lemma core_foldl_optional:
  "core (foldl (match_optional i hr) st items) = foldl (core_step i hr) (core st) items"
  by (induction items arbitrary: st) (simp_all add: core_match_optional)

lemma core_scan_row:
  "core (scan_row required optional st (i, row)) =
     foldl (core_step i (map normalize_cell row)) (core st) (required @ optional)"
  by (simp add: scan_row_def Let_def core_foldl_required core_foldl_optional)

lemma matched_name_cong:
  "C' (fst item) = C (fst item) \<Longrightarrow> matched_name hr C' item = matched_name hr C item"
  by (simp add: matched_name_def)

lemma foldl_core_other:
  "h \<notin> fst ` set items \<Longrightarrow> fst (foldl (core_step i hr) cl items) h = fst cl h"
  by (induction items arbitrary: cl) (auto simp: fst_core_step split: option.splits)

lemma foldl_core_collected:
  "distinct (map fst items) \<Longrightarrow> item \<in> set items \<Longrightarrow>
   fst (foldl (core_step i hr) cl items) (fst item) =
     (case matched_name hr (fst cl) item of
        None \<Rightarrow> fst cl (fst item)
      | Some n \<Rightarrow> Some (index_of hr (Some n)))"
proof (induction items arbitrary: cl)
  case Nil
  then show ?case by simp
next
  case (Cons x xs)
  show ?case
  proof (cases "item = x")
    case True
    with Cons.prems have "fst item \<notin> fst ` set xs" by auto
    then have "fst (foldl (core_step i hr) (core_step i hr cl x) xs) (fst item)
        = fst (core_step i hr cl x) (fst item)"
      by (rule foldl_core_other)
    with True show ?thesis
      by (simp add: fst_core_step split: option.splits)
  next
    case False
    with Cons.prems have in_xs: "item \<in> set xs" and ne: "fst item \<noteq> fst x"
      by (auto simp: image_iff)
    have same: "fst (core_step i hr cl x) (fst item) = fst cl (fst item)"
      using ne by (simp add: fst_core_step split: option.splits)
    have "fst (foldl (core_step i hr) (core_step i hr cl x) xs) (fst item) =
      (case matched_name hr (fst (core_step i hr cl x)) item of
         None \<Rightarrow> fst (core_step i hr cl x) (fst item)
       | Some n \<Rightarrow> Some (index_of hr (Some n)))"
      using Cons.IH [of "core_step i hr cl x"] Cons.prems in_xs by simp
    then show ?thesis
      by (simp add: same matched_name_cong [of "fst (core_step i hr cl x)" item "fst cl", OF same]
          split: option.splits)
  qed
qed

lemma foldl_core_last:
  "distinct (map fst items) \<Longrightarrow>
   snd (foldl (core_step i hr) cl items) =
     (if \<exists>item \<in> set items. matched_name hr (fst cl) item \<noteq> None then Some i else snd cl)"
proof (induction items arbitrary: cl)
  case Nil
  then show ?case by simp
next
  case (Cons x xs)
  have same: "\<And>item. item \<in> set xs \<Longrightarrow>
      matched_name hr (fst (core_step i hr cl x)) item = matched_name hr (fst cl) item"
  proof (rule matched_name_cong)
    fix item assume "item \<in> set xs"
    with Cons.prems have "fst item \<noteq> fst x" by (auto simp: image_iff)
    then show "fst (core_step i hr cl x) (fst item) = fst cl (fst item)"
      by (simp add: fst_core_step split: option.splits)
  qed
  have "snd (foldl (core_step i hr) (core_step i hr cl x) xs) =
     (if \<exists>item \<in> set xs. matched_name hr (fst (core_step i hr cl x)) item \<noteq> None
      then Some i else snd (core_step i hr cl x))"
    using Cons.IH [of "core_step i hr cl x"] Cons.prems by simp
  also have "\<dots> = (if \<exists>item \<in> set xs. matched_name hr (fst cl) item \<noteq> None
      then Some i else snd (core_step i hr cl x))"
    using same by simp
  finally show ?case
    by (auto simp: snd_core_step split: option.splits)
qed

lemma matched_name_None_iff:
  "matched_name hr C item = None \<longleftrightarrow>
     \<not> (Some (lower (strip (fst item))) \<in> set hr \<and> C (fst item) = None) \<and>
     \<not> (\<exists>alias \<in> set (snd item). Some (lower alias) \<in> set hr)"
  by (auto simp: matched_name_def find_None_iff)

lemma scan_rows_Nil: "scan_rows required optional [] = initial_state required"
  by (simp add: scan_rows_def)

lemma scan_rows_snoc:
  "scan_rows required optional (rows @ [row]) =
     scan_row required optional (scan_rows required optional rows) (length rows, row)"
  by (simp add: scan_rows_def enumerate_append_eq)

lemma collected_scan_row:
  "collected_headers (scan_row required optional st (i, row)) =
     fst (foldl (core_step i (map normalize_cell row)) (core st) (required @ optional))"
  using arg_cong [where f = fst, OF core_scan_row [of required optional st i row]]
  by (simp add: core_def)

lemma last_scan_row:
  "last_match_row (scan_row required optional st (i, row)) =
     snd (foldl (core_step i (map normalize_cell row)) (core st) (required @ optional))"
  using arg_cong [where f = snd, OF core_scan_row [of required optional st i row]]
  by (simp add: core_def)

lemma collected_scan_row_item:
  assumes "distinct (map fst (required @ optional))" and "item \<in> set (required @ optional)"
  shows "collected_headers (scan_row required optional st (i, row)) (fst item) =
     (case matched_name (map normalize_cell row) (collected_headers st) item of
        None \<Rightarrow> collected_headers st (fst item)
      | Some n \<Rightarrow> Some (index_of (map normalize_cell row) (Some n)))"
  using foldl_core_collected [OF assms, of i "map normalize_cell row" "core st"]
  by (simp add: collected_scan_row core_def split: option.splits)

lemma collected_scan_row_other:
  "h \<notin> fst ` set (required @ optional) \<Longrightarrow>
   collected_headers (scan_row required optional st (i, row)) h = collected_headers st h"
  using foldl_core_other [of h "required @ optional" i "map normalize_cell row" "core st"]
  by (simp add: collected_scan_row core_def)

lemma last_scan_row_items:
  assumes "distinct (map fst (required @ optional))"
  shows "last_match_row (scan_row required optional st (i, row)) =
     (if \<exists>item \<in> set (required @ optional).
           matched_name (map normalize_cell row) (collected_headers st) item \<noteq> None
      then Some i else last_match_row st)"
  using foldl_core_last [OF assms, of i "map normalize_cell row" "core st"]
  by (simp add: last_scan_row core_def)

lemma collected_scan_rows_iff:
  assumes "distinct (map fst (required @ optional))" and "item \<in> set (required @ optional)"
  shows "collected_headers (scan_rows required optional rows) (fst item) \<noteq> None \<longleftrightarrow>
     (\<exists>row \<in> set rows. item_in_row item row)"
proof (induction rows rule: rev_induct)
  case Nil
  show ?case by (simp add: scan_rows_Nil initial_state_def)
next
  case (snoc row rows)
  let ?st = "scan_rows required optional rows"
  have "collected_headers (scan_rows required optional (rows @ [row])) (fst item) \<noteq> None \<longleftrightarrow>
      collected_headers ?st (fst item) \<noteq> None \<or>
      matched_name (map normalize_cell row) (collected_headers ?st) item \<noteq> None"
    by (simp add: scan_rows_snoc collected_scan_row_item [OF assms] split: option.splits)
  also have "\<dots> \<longleftrightarrow> collected_headers ?st (fst item) \<noteq> None \<or> item_in_row item row"
    by (auto simp: matched_name_None_iff item_in_row_def)
  finally show ?case
    using snoc.IH by auto
qed

lemma collected_scan_rows_other:
  "h \<notin> fst ` set (required @ optional) \<Longrightarrow>
   collected_headers (scan_rows required optional rows) h = None"
  by (induction rows rule: rev_induct)
     (simp_all add: scan_rows_Nil initial_state_def scan_rows_snoc collected_scan_row_other)

lemma collected_match_required:
  "collected_headers (match_required i hr st item) h =
     (case matched_name hr (collected_headers st) item of
        None \<Rightarrow> collected_headers st h
      | Some n \<Rightarrow> if h = fst item then Some (index_of hr (Some n)) else collected_headers st h)"
  by (simp add: match_required_def matched_name_def Let_def split: option.splits)

lemma collected_match_optional:
  "collected_headers (match_optional i hr st item) h =
     (case matched_name hr (collected_headers st) item of
        None \<Rightarrow> collected_headers st h
      | Some n \<Rightarrow> if h = fst item then Some (index_of hr (Some n)) else collected_headers st h)"
  by (simp add: match_optional_def matched_name_def Let_def split: option.splits)

lemma missing_match_required:
  "missing_required_headers (match_required i hr st item) =
     (case matched_name hr (collected_headers st) item of
        None \<Rightarrow> missing_required_headers st
      | Some n \<Rightarrow> remove1 (fst item) (missing_required_headers st))"
  by (simp add: match_required_def matched_name_def Let_def remove1_idem split: option.splits)

lemma missing_match_optional:
  "missing_required_headers (match_optional i hr st item) = missing_required_headers st"
  by (simp add: match_optional_def Let_def split: option.splits)

lemma distinct_remove1_filter:
  "distinct xs \<Longrightarrow> remove1 x (filter P xs) = filter (\<lambda>y. y \<noteq> x \<and> P y) xs"
proof (induction xs)
  case Nil
  show ?case by simp
next
  case (Cons a xs)
  show ?case
  proof (cases "a = x")
    case True
    with Cons.prems have "x \<notin> set xs" by simp
    then have "filter (\<lambda>y. y \<noteq> x \<and> P y) xs = filter P xs"
      by (intro filter_cong) auto
    moreover from \<open>x \<notin> set xs\<close> have "remove1 x (filter P xs) = filter P xs"
      by (simp add: remove1_idem)
    ultimately show ?thesis using True by simp
  next
    case False
    with Cons show ?thesis by simp
  qed
qed

lemma missing_inv_required:
  assumes "distinct names" and "missing_inv names st"
  shows "missing_inv names (match_required i hr st item)"
proof (cases "matched_name hr (collected_headers st) item")
  case None
  with assms(2) show ?thesis
    by (simp add: missing_inv_def missing_match_required collected_match_required)
next
  case (Some n)
  have "filter (\<lambda>h. collected_headers (match_required i hr st item) h = None) names =
      filter (\<lambda>y. y \<noteq> fst item \<and> collected_headers st y = None) names"
    by (intro filter_cong) (auto simp: collected_match_required Some)
  with assms Some show ?thesis
    by (simp add: missing_inv_def missing_match_required distinct_remove1_filter)
qed

lemma missing_inv_optional:
  assumes "fst item \<notin> set names" and "missing_inv names st"
  shows "missing_inv names (match_optional i hr st item)"
proof -
  have "filter (\<lambda>h. collected_headers (match_optional i hr st item) h = None) names =
      filter (\<lambda>h. collected_headers st h = None) names"
    using assms(1) by (intro filter_cong) (auto simp: collected_match_optional split: option.splits)
  with assms(2) show ?thesis
    by (simp add: missing_inv_def missing_match_optional)
qed

lemma missing_inv_foldl_required:
  "distinct names \<Longrightarrow> missing_inv names st \<Longrightarrow>
   missing_inv names (foldl (match_required i hr) st items)"
  by (induction items arbitrary: st) (simp_all add: missing_inv_required)

lemma missing_inv_foldl_optional:
  "fst ` set items \<inter> set names = {} \<Longrightarrow> missing_inv names st \<Longrightarrow>
   missing_inv names (foldl (match_optional i hr) st items)"
  by (induction items arbitrary: st) (simp_all add: missing_inv_optional)

lemma missing_inv_scan_row:
  assumes "distinct (map fst (required @ optional))" and "missing_inv (map fst required) st"
  shows "missing_inv (map fst required) (scan_row required optional st irow)"
proof -
  from assms(1) have d: "distinct (map fst required)"
    and disj: "fst ` set optional \<inter> set (map fst required) = {}"
    by auto
  show ?thesis
    unfolding scan_row_def Let_def
    by (intro missing_inv_foldl_optional [OF disj] missing_inv_foldl_required [OF d] assms(2))
qed

lemma missing_inv_scan_rows:
  assumes "distinct (map fst (required @ optional))"
  shows "missing_inv (map fst required) (scan_rows required optional rows)"
proof (induction rows rule: rev_induct)
  case Nil
  show ?case by (simp add: scan_rows_Nil initial_state_def missing_inv_def)
next
  case (snoc row rows)
  then show ?case
    by (simp add: scan_rows_snoc missing_inv_scan_row [OF assms])
qed

lemma missing_foldl_required_subset:
  "set (missing_required_headers (foldl (match_required i hr) st items))
     \<subseteq> set (missing_required_headers st)"
proof (induction items arbitrary: st)
  case Nil
  show ?case by simp
next
  case (Cons x xs)
  have "set (missing_required_headers (match_required i hr st x))
      \<subseteq> set (missing_required_headers st)"
    by (cases "matched_name hr (collected_headers st) x")
       (simp_all add: missing_match_required set_remove1_subset)
  with Cons.IH [of "match_required i hr st x"] show ?case by auto
qed

lemma missing_foldl_optional:
  "missing_required_headers (foldl (match_optional i hr) st items) = missing_required_headers st"
  by (induction items arbitrary: st) (simp_all add: missing_match_optional)

lemma missing_scan_rows_subset:
  "set (missing_required_headers (scan_rows required optional rows)) \<subseteq> set (map fst required)"
proof (induction rows rule: rev_induct)
  case Nil
  show ?case by (simp add: scan_rows_Nil initial_state_def)
next
  case (snoc row rows)
  have "set (missing_required_headers (scan_rows required optional (rows @ [row])))
      \<subseteq> set (missing_required_headers (scan_rows required optional rows))"
    by (simp add: scan_rows_snoc scan_row_def Let_def missing_foldl_optional
        missing_foldl_required_subset)
  with snoc.IH show ?case by blast
qed

lemma find_header_row_eq:
  "find_header_row required optional max_rows dataframe =
     (let st = scan_rows required optional (head_rows max_rows dataframe)
      in if \<forall>item \<in> set required. collected_headers st (fst item) = None
         then (None, [], missing_required_headers st, [])
         else (map_option Suc (last_match_row st),
               indices_of (collected_headers st) required,
               missing_required_headers st,
               indices_of (collected_headers st) optional))"
  by (auto simp: find_header_row_def Let_def split: option.splits)

lemma missing_scan_rows_eq:
  assumes "distinct (map fst (required @ optional))"
  shows "missing_required_headers (scan_rows required optional rows) =
     unmatched_required required rows"
proof -
  let ?C = "collected_headers (scan_rows required optional rows)"
  have "missing_required_headers (scan_rows required optional rows) =
      filter (\<lambda>h. ?C h = None) (map fst required)"
    using missing_inv_scan_rows [OF assms, of rows] by (simp add: missing_inv_def)
  also have "\<dots> = map fst (filter (\<lambda>item. ?C (fst item) = None) required)"
    by (simp add: filter_map comp_def)
  also have "filter (\<lambda>item. ?C (fst item) = None) required =
      filter (\<lambda>item. \<not> (\<exists>row \<in> set rows. item_in_row item row)) required"
  proof (rule filter_cong [OF refl])
    fix item assume "item \<in> set required"
    then have "item \<in> set (required @ optional)" by simp
    from collected_scan_rows_iff [OF assms this, of rows]
    show "(?C (fst item) = None) = (\<not> (\<exists>row \<in> set rows. item_in_row item row))"
      by blast
  qed
  finally show ?thesis
    by (simp add: unmatched_required_def)
qed

lemma missing_find_header_row:
  "fst (snd (snd (find_header_row required optional max_rows dataframe))) =
     missing_required_headers (scan_rows required optional (head_rows max_rows dataframe))"
  by (simp add: find_header_row_def Let_def)

lemma parse_csv_eq:
  "parse_csv required optional max_rows df =
     (let r = find_header_row required optional max_rows df
      in if fst (snd (snd r)) = [] then Parsed (fst r) (fst (snd r)) (snd (snd (snd r)))
         else Error (''Required headers not found: '' @ join '', '' (fst (snd (snd r)))))"
  by (simp add: parse_csv_def Let_def split: prod.splits)

lemma row_records_append:
  "i < length rows \<Longrightarrow> row_records items (rows @ rest) i = row_records items rows i"
  by (simp add: row_records_def nth_append)

lemma row_records_last:
  "row_records items (rows @ [row]) (length rows) =
     (\<exists>item \<in> set items.
        (\<exists>alias \<in> set (snd item). Some (lower alias) \<in> set (map normalize_cell row)) \<or>
        (Some (lower (strip (fst item))) \<in> set (map normalize_cell row) \<and>
         \<not> (\<exists>r \<in> set rows. item_in_row item r)))"
  by (simp add: row_records_def)

lemma row_records_matched_name:
  assumes "distinct (map fst (required @ optional))"
  shows "row_records (required @ optional) (rows @ [row]) (length rows) \<longleftrightarrow>
     (\<exists>item \<in> set (required @ optional).
        matched_name (map normalize_cell row)
          (collected_headers (scan_rows required optional rows)) item \<noteq> None)"
proof -
  have "\<And>item. item \<in> set (required @ optional) \<Longrightarrow>
      (collected_headers (scan_rows required optional rows) (fst item) = None) =
      (\<not> (\<exists>r \<in> set rows. item_in_row item r))"
    using collected_scan_rows_iff [OF assms, of _ rows] by blast
  then show ?thesis
    unfolding row_records_last matched_name_None_iff by blast
qed

lemma last_match_row_scan_rows:
  assumes "distinct (map fst (required @ optional))"
  shows "case last_match_row (scan_rows required optional rows) of
       None \<Rightarrow> \<forall>r < length rows. \<not> row_records (required @ optional) rows r
     | Some r \<Rightarrow> r < length rows \<and> row_records (required @ optional) rows r \<and>
         (\<forall>r' < length rows. r < r' \<longrightarrow> \<not> row_records (required @ optional) rows r')"
proof (induction rows rule: rev_induct)
  case Nil
  show ?case by (simp add: scan_rows_Nil initial_state_def)
next
  case (snoc row rows)
  let ?items = "required @ optional"
  let ?st = "scan_rows required optional rows"
  have old: "\<And>r. r < length rows \<Longrightarrow>
      row_records ?items (rows @ [row]) r = row_records ?items rows r"
    by (rule row_records_append)
  show ?case
  proof (cases "row_records ?items (rows @ [row]) (length rows)")
    case True
    then have "last_match_row (scan_rows required optional (rows @ [row])) = Some (length rows)"
      using row_records_matched_name [OF assms, of rows row]
      by (simp add: scan_rows_snoc last_scan_row_items [OF assms])
    with True show ?thesis by simp
  next
    case False
    then have eq: "last_match_row (scan_rows required optional (rows @ [row])) = last_match_row ?st"
      using row_records_matched_name [OF assms, of rows row]
      by (simp add: scan_rows_snoc last_scan_row_items [OF assms])
    show ?thesis
    proof (cases "last_match_row ?st")
      case None
      with snoc.IH have "\<forall>r < length rows. \<not> row_records ?items rows r" by simp
      with False old have "\<forall>r < length (rows @ [row]). \<not> row_records ?items (rows @ [row]) r"
        by (auto simp: less_Suc_eq)
      with None eq show ?thesis by simp
    next
      case (Some r)
      with snoc.IH have r: "r < length rows" "row_records ?items rows r"
        and later: "\<forall>r' < length rows. r < r' \<longrightarrow> \<not> row_records ?items rows r'"
        by simp_all
      have "\<forall>r' < length (rows @ [row]). r < r' \<longrightarrow> \<not> row_records ?items (rows @ [row]) r'"
        using later False old by (auto simp: less_Suc_eq)
      with r old Some eq show ?thesis by simp
    qed
  qed
qed

lemma collected_imp_last_core_step:
  assumes "\<And>h. fst cl h \<noteq> None \<Longrightarrow> snd cl \<noteq> None"
    and "fst (core_step i hr cl x) h \<noteq> None"
  shows "snd (core_step i hr cl x) \<noteq> None"
proof (cases "matched_name hr (fst cl) x")
  case None
  then have "core_step i hr cl x = cl" by (simp add: core_step_def)
  with assms show ?thesis by simp
next
  case (Some n)
  then show ?thesis by (simp add: snd_core_step)
qed

lemma collected_imp_last_foldl:
  assumes "\<And>h. fst cl h \<noteq> None \<Longrightarrow> snd cl \<noteq> None"
    and "fst (foldl (core_step i hr) cl items) h \<noteq> None"
  shows "snd (foldl (core_step i hr) cl items) \<noteq> None"
  using assms
proof (induction items arbitrary: cl)
  case Nil
  then show ?case by simp
next
  case (Cons x xs)
  have step: "\<And>h. fst (core_step i hr cl x) h \<noteq> None \<Longrightarrow> snd (core_step i hr cl x) \<noteq> None"
    by (rule collected_imp_last_core_step [OF Cons.prems(1)])
  have "fst (foldl (core_step i hr) (core_step i hr cl x) xs) h \<noteq> None"
    using Cons.prems(2) by simp
  from Cons.IH [OF step this] show ?case by simp
qed

lemma collected_imp_last_scan_rows:
  "collected_headers (scan_rows required optional rows) h \<noteq> None \<Longrightarrow>
   last_match_row (scan_rows required optional rows) \<noteq> None"
proof (induction rows arbitrary: h rule: rev_induct)
  case Nil
  then show ?case by (simp add: scan_rows_Nil initial_state_def)
next
  case (snoc row rows)
  let ?st = "scan_rows required optional rows"
  have old: "\<And>h. fst (core ?st) h \<noteq> None \<Longrightarrow> snd (core ?st) \<noteq> None"
    using snoc.IH unfolding core_def fst_conv snd_conv .
  have "fst (foldl (core_step (length rows) (map normalize_cell row)) (core ?st)
      (required @ optional)) h \<noteq> None"
    using snoc.prems unfolding scan_rows_snoc collected_scan_row .
  from collected_imp_last_foldl [OF old this] show ?case
    unfolding scan_rows_snoc last_scan_row .
qed

lemma index_of_less: "x \<in> set xs \<Longrightarrow> index_of xs x < length xs"
  by (induction xs) auto

lemma nth_index_of: "x \<in> set xs \<Longrightarrow> xs ! index_of xs x = x"
  by (induction xs) auto

lemma index_of_least: "k < index_of xs x \<Longrightarrow> xs ! k \<noteq> x"
proof (induction xs arbitrary: k)
  case Nil
  then show ?case by simp
next
  case (Cons y ys)
  then show ?case by (cases k) (auto split: if_splits)
qed

lemma find_first_declared:
  "\<forall>a \<in> set before. \<not> P a \<Longrightarrow> P alias \<Longrightarrow> find P (before @ alias # after) = Some alias"
  by (induction before) auto

lemma matched_name_in_row: "matched_name hr C item = Some n \<Longrightarrow> Some n \<in> set hr"
  by (auto simp: matched_name_def find_Some_iff split: if_splits)

lemma matched_name_is_name:
  "matched_name hr C item = Some n \<Longrightarrow>
   n = lower (strip (fst item)) \<or> (\<exists>alias \<in> set (snd item). n = lower alias)"
  by (auto simp: matched_name_def find_Some_iff split: if_splits)

lemma normalize_cell_Some_iff:
  "normalize_cell c = Some n \<longleftrightarrow> (\<exists>s. c = Some s \<and> replace_newline (lower (strip s)) = n)"
  by (cases c) (auto simp: normalize_cell_def)

lemma in_normalized_row_iff:
  "Some n \<in> set (map normalize_cell row) \<longleftrightarrow>
     (\<exists>s. Some s \<in> set row \<and> replace_newline (lower (strip s)) = n)"
proof
  assume "Some n \<in> set (map normalize_cell row)"
  then obtain c where "c \<in> set row" "normalize_cell c = Some n" by auto
  then show "\<exists>s. Some s \<in> set row \<and> replace_newline (lower (strip s)) = n"
    by (auto simp: normalize_cell_Some_iff)
next
  assume "\<exists>s. Some s \<in> set row \<and> replace_newline (lower (strip s)) = n"
  then obtain s where "Some s \<in> set row" "normalize_cell (Some s) = Some n"
    by (auto simp: normalize_cell_def)
  then show "Some n \<in> set (map normalize_cell row)"
    by (metis image_eqI set_map)
qed

lemma scan_row_records_index:
  assumes "distinct (map fst (required @ optional))" and "item \<in> set (required @ optional)"
    and "matched_name (map normalize_cell row) (collected_headers st) item = Some n"
  shows "collected_headers (scan_row required optional st (i, row)) (fst item) =
     Some (index_of (map normalize_cell row) (Some n))"
  by (simp add: collected_scan_row_item [OF assms(1,2)] assms(3))

lemma from_present_cell_mono:
  "from_present_cell items rows h j \<Longrightarrow> from_present_cell items (rows @ rest) h j"
  unfolding from_present_cell_def by fastforce

lemma matched_name_from_present_cell:
  assumes "item \<in> set items"
    and "matched_name (map normalize_cell row) C item = Some n"
  shows "from_present_cell items (rows @ [row]) (fst item)
     (index_of (map normalize_cell row) (Some n))"
proof -
  let ?hr = "map normalize_cell row"
  let ?j = "index_of ?hr (Some n)"
  have inrow: "Some n \<in> set ?hr"
    by (rule matched_name_in_row [OF assms(2)])
  have less: "?j < length row"
    using index_of_less [OF inrow] by simp
  have "?hr ! ?j = Some n"
    by (rule nth_index_of [OF inrow])
  with less have "normalize_cell (row ! ?j) = Some n"
    by simp
  then obtain s where s: "row ! ?j = Some s" "replace_newline (lower (strip s)) = n"
    by (auto simp: normalize_cell_Some_iff)
  from matched_name_is_name [OF assms(2)]
  have "n = lower (strip (fst item)) \<or> (\<exists>alias \<in> set (snd item). n = lower alias)" .
  with s have "case row ! ?j of None \<Rightarrow> False
      | Some s \<Rightarrow> replace_newline (lower (strip s)) = lower (strip (fst item)) \<or>
          (\<exists>alias \<in> set (snd item). replace_newline (lower (strip s)) = lower alias)"
    by auto
  with assms(1) less show ?thesis
    unfolding from_present_cell_def by fastforce
qed

lemma from_present_cell_core_step:
  assumes "item \<in> set items"
    and "\<And>h j. fst cl h = Some j \<Longrightarrow> from_present_cell items (rows @ [row]) h j"
    and "fst (core_step i (map normalize_cell row) cl item) h = Some j"
  shows "from_present_cell items (rows @ [row]) h j"
proof (cases "matched_name (map normalize_cell row) (fst cl) item")
  case None
  with assms(3) have "fst cl h = Some j" by (simp add: fst_core_step)
  then show ?thesis by (rule assms(2))
next
  case (Some n)
  show ?thesis
  proof (cases "h = fst item")
    case True
    with Some assms(3) have "j = index_of (map normalize_cell row) (Some n)"
      by (simp add: fst_core_step)
    with matched_name_from_present_cell [OF assms(1) Some, of rows] True show ?thesis
      by simp
  next
    case False
    with Some assms(3) have "fst cl h = Some j" by (simp add: fst_core_step)
    then show ?thesis by (rule assms(2))
  qed
qed

lemma from_present_cell_foldl:
  assumes "set xs \<subseteq> set items"
    and "\<And>h j. fst cl h = Some j \<Longrightarrow> from_present_cell items (rows @ [row]) h j"
    and "fst (foldl (core_step i (map normalize_cell row)) cl xs) h = Some j"
  shows "from_present_cell items (rows @ [row]) h j"
  using assms
proof (induction xs arbitrary: cl h j)
  case Nil
  then show ?case by simp
next
  case (Cons x xs)
  have x: "x \<in> set items" and xs: "set xs \<subseteq> set items"
    using Cons.prems(1) by simp_all
  have step: "\<And>h j. fst (core_step i (map normalize_cell row) cl x) h = Some j \<Longrightarrow>
      from_present_cell items (rows @ [row]) h j"
    by (rule from_present_cell_core_step [OF x Cons.prems(2)])
  have "fst (foldl (core_step i (map normalize_cell row))
      (core_step i (map normalize_cell row) cl x) xs) h = Some j"
    using Cons.prems(3) by simp
  from Cons.IH [OF xs step this] show ?case .
qed

lemma from_present_cell_scan_rows:
  "collected_headers (scan_rows required optional rows) h = Some j \<Longrightarrow>
   from_present_cell (required @ optional) rows h j"
proof (induction rows arbitrary: h j rule: rev_induct)
  case Nil
  then show ?case by (simp add: scan_rows_Nil initial_state_def)
next
  case (snoc row rows)
  let ?st = "scan_rows required optional rows"
  have old: "\<And>h j. fst (core ?st) h = Some j \<Longrightarrow>
      from_present_cell (required @ optional) (rows @ [row]) h j"
    using snoc.IH from_present_cell_mono by (simp add: core_def)
  have "fst (foldl (core_step (length rows) (map normalize_cell row)) (core ?st)
      (required @ optional)) h = Some j"
    using snoc.prems unfolding scan_rows_snoc collected_scan_row .
  from from_present_cell_foldl [OF subset_refl old this] show ?case .
qed

lemma indices_of_mem: "(h, j) \<in> set (indices_of C hs) \<Longrightarrow> C h = Some j"
  by (auto simp: indices_of_def List.map_filter_def)

lemma row_records_first_match:
  assumes "no_alias_rematch items rows" and "r < length rows"
  shows "row_records items rows r = first_match_row items rows r"
proof -
  have "\<And>item. item \<in> set items \<Longrightarrow>
      (\<exists>alias \<in> set (snd item). Some (lower alias) \<in> set (map normalize_cell (rows ! r))) \<Longrightarrow>
      \<not> (\<exists>row \<in> set (take r rows). item_in_row item row)"
  proof -
    fix item
    assume "item \<in> set items"
      and "\<exists>alias \<in> set (snd item). Some (lower alias) \<in> set (map normalize_cell (rows ! r))"
    moreover have "r \<in> set [0..<length rows]"
      using assms(2) by simp
    ultimately show "\<not> (\<exists>row \<in> set (take r rows). item_in_row item row)"
      using assms(1) unfolding no_alias_rematch_def by blast
  qed
  then show ?thesis
    unfolding row_records_def first_match_row_def item_in_row_def by blast
qed

lemma start_row_general:
  assumes "distinct (map fst (required @ optional))"
  shows "((\<exists>item \<in> set required. \<exists>row \<in> set (head_rows max_rows df). item_in_row item row) \<longrightarrow>
      (\<exists>r < length (head_rows max_rows df).
         fst (find_header_row required optional max_rows df) = Some (r + 1) \<and>
         row_records (required @ optional) (head_rows max_rows df) r \<and>
         (\<forall>r' < length (head_rows max_rows df).
            r < r' \<longrightarrow> \<not> row_records (required @ optional) (head_rows max_rows df) r'))) \<and>
     (\<not> (\<exists>item \<in> set required. \<exists>row \<in> set (head_rows max_rows df). item_in_row item row) \<longrightarrow>
      fst (find_header_row required optional max_rows df) = None)"
proof (intro conjI impI)
  let ?rows = "head_rows max_rows df"
  let ?st = "scan_rows required optional ?rows"
  assume "\<exists>item \<in> set required. \<exists>row \<in> set ?rows. item_in_row item row"
  then obtain item where item: "item \<in> set required"
    and "\<exists>row \<in> set ?rows. item_in_row item row"
    by blast
  then have coll: "collected_headers ?st (fst item) \<noteq> None"
    using collected_scan_rows_iff [OF assms, of item ?rows] by simp
  then obtain r where r: "last_match_row ?st = Some r"
    using collected_imp_last_scan_rows [of required optional ?rows "fst item"] by blast
  have "fst (find_header_row required optional max_rows df) = map_option Suc (last_match_row ?st)"
    using item coll by (auto simp: find_header_row_eq Let_def)
  with r have start: "fst (find_header_row required optional max_rows df) = Some (r + 1)"
    by simp
  from last_match_row_scan_rows [OF assms, of ?rows] r
  have "r < length ?rows" "row_records (required @ optional) ?rows r"
    "\<forall>r' < length ?rows. r < r' \<longrightarrow> \<not> row_records (required @ optional) ?rows r'"
    by simp_all
  with start show "\<exists>r < length ?rows.
         fst (find_header_row required optional max_rows df) = Some (r + 1) \<and>
         row_records (required @ optional) ?rows r \<and>
         (\<forall>r' < length ?rows. r < r' \<longrightarrow> \<not> row_records (required @ optional) ?rows r')"
    by blast
next
  let ?rows = "head_rows max_rows df"
  let ?st = "scan_rows required optional ?rows"
  assume none: "\<not> (\<exists>item \<in> set required. \<exists>row \<in> set ?rows. item_in_row item row)"
  have "\<forall>item \<in> set required. collected_headers ?st (fst item) = None"
  proof
    fix item assume "item \<in> set required"
    with none collected_scan_rows_iff [OF assms, of item ?rows]
    show "collected_headers ?st (fst item) = None" by auto
  qed
  then show "fst (find_header_row required optional max_rows df) = None"
    by (simp add: find_header_row_eq Let_def)
qed

section \<open>Properties of the specification, checked on the code\<close>

text \<open>
  C1 (no overwrite). The claim fails on the code: the \<open>elif\<close> branch of find_header_row
  has no \<open>header not in collected_headers\<close> test, so an alias in a later row replaces
  the recorded index. With the required header Price (alias cost), the row
  \<open>Price, x\<close> records column 0; scanning the further row \<open>y, cost\<close> leaves column 1.
\<close>

theorem later_alias_row_overwrites_index:
  "find_header_row [(''Price'', [''cost''])] [] 5 [[Some ''Price'', Some ''x'']]
     = (Some 1, [(''Price'', 0)], [], []) \<and>
   find_header_row [(''Price'', [''cost''])] [] 5
       [[Some ''Price'', Some ''x''], [Some ''y'', Some ''cost'']]
     = (Some 2, [(''Price'', 1)], [], [])"
  by code_simp

text \<open>
  C3 (empty required set), as the code has it: with no required header the test
  \<open>not collected_headers.keys() & self.required_headers.keys()\<close> always holds, so
  find_header_row returns \<open>(None, {}, [], {})\<close> whatever the optional headers matched, and
  parse_csv reports no error, no start row and no index.
\<close>

theorem empty_required_returns_no_start_row:
  "find_header_row [] optional max_rows dataframe = (None, [], [], []) \<and>
   parse_csv [] optional max_rows dataframe = Parsed None [] []"
proof -
  have "set (missing_required_headers (scan_rows [] optional (head_rows max_rows dataframe)))
      \<subseteq> set (map fst ([] :: headers))"
    by (rule missing_scan_rows_subset)
  then have "missing_required_headers (scan_rows [] optional (head_rows max_rows dataframe)) = []"
    by simp
  then have "find_header_row [] optional max_rows dataframe = (None, [], [], [])"
    by (simp add: find_header_row_def Let_def)
  then show ?thesis
    by (simp add: parse_csv_def)
qed

text \<open>
  C3 as stated fails: the optional header Notes is matched in row 0, and the result has
  neither a start row nor the index of Notes.
\<close>

theorem empty_required_optional_match_counterexample:
  "item_in_row (''Notes'', []) [Some ''Notes''] \<and>
   find_header_row [] [(''Notes'', [])] 5 [[Some ''Notes'']] = (None, [], [], [])"
  by code_simp

text \<open>
  C5 (error exactly for the unmatched required fields). For a schema whose field names are
  unique across required and optional headers, parse_csv returns the error exactly when
  some required header has neither its name nor an alias in a row of the scan window; the
  message then lists these headers, in the order of the dictionary, and
  otherwise the parsed result is returned.
\<close>

theorem parse_csv_error_iff_unmatched_required:
  assumes "distinct (map fst (required @ optional))"
  shows "parse_csv required optional max_rows df =
     (if unmatched_required required (head_rows max_rows df) = []
      then Parsed (fst (find_header_row required optional max_rows df))
             (fst (snd (find_header_row required optional max_rows df)))
             (snd (snd (snd (find_header_row required optional max_rows df))))
      else Error (''Required headers not found: '' @
             join '', '' (unmatched_required required (head_rows max_rows df))))"
  by (simp add: parse_csv_eq Let_def missing_find_header_row missing_scan_rows_eq [OF assms])

theorem parse_csv_error_iff_unmatched_required_witness:
  "distinct (map fst ([(''Address'', []), (''Price'', [''cost''])] @ [])) \<and>
   unmatched_required [(''Address'', []), (''Price'', [''cost''])]
     (head_rows 2 [[Some ''Street'', Some ''Cost'']]) = [''Address''] \<and>
   parse_csv [(''Address'', []), (''Price'', [''cost''])] [] 2 [[Some ''Street'', Some ''Cost'']]
     = Error ''Required headers not found: Address''"
proof -
  have d: "distinct (map fst ([(''Address'', []), (''Price'', [''cost''])] @ []))"
    by simp
  have u: "unmatched_required [(''Address'', []), (''Price'', [''cost''])]
     (head_rows 2 [[Some ''Street'', Some ''Cost'']]) = [''Address'']"
    by code_simp
  show ?thesis
    using parse_csv_error_iff_unmatched_required [OF d, of 2 "[[Some ''Street'', Some ''Cost'']]"]
    by (simp add: u)
qed

text \<open>
  C6 (zero overlap). For a schema whose field names are unique across required and
  optional headers and whose required set is not empty: when no row of the scan window
  holds the name or an alias of a required header, find_header_row returns no start row,
  no indices and all required names as missing, whatever optional headers matched, and
  parse_csv reports all of them.
\<close>

theorem no_required_match_reports_all_required:
  assumes "distinct (map fst (required @ optional))"
    and "required \<noteq> []"
    and "\<forall>item \<in> set required. \<forall>row \<in> set (head_rows max_rows df). \<not> item_in_row item row"
  shows "find_header_row required optional max_rows df = (None, [], map fst required, []) \<and>
     parse_csv required optional max_rows df =
       Error (''Required headers not found: '' @ join '', '' (map fst required))"
proof -
  let ?st = "scan_rows required optional (head_rows max_rows df)"
  have none: "\<forall>item \<in> set required. collected_headers ?st (fst item) = None"
  proof
    fix item assume "item \<in> set required"
    then have "item \<in> set (required @ optional)" by simp
    from collected_scan_rows_iff [OF assms(1) this, of "head_rows max_rows df"] assms(3)
      \<open>item \<in> set required\<close>
    show "collected_headers ?st (fst item) = None" by blast
  qed
  have "filter (\<lambda>item. \<not> (\<exists>row \<in> set (head_rows max_rows df). item_in_row item row)) required
      = required"
    using assms(3) by (simp add: filter_id_conv)
  then have missing: "missing_required_headers ?st = map fst required"
    by (simp add: missing_scan_rows_eq [OF assms(1)] unmatched_required_def)
  have r: "find_header_row required optional max_rows df = (None, [], map fst required, [])"
    using none missing by (simp add: find_header_row_eq Let_def)
  moreover have "map fst required \<noteq> []"
    using assms(2) by simp
  ultimately show ?thesis
    by (simp add: parse_csv_eq Let_def)
qed

theorem no_required_match_reports_all_required_witness:
  "distinct (map fst ([(''Address'', []), (''Price'', [''cost''])] @ [(''Notes'', [])])) \<and>
   \<not> item_in_row (''Address'', []) [Some ''Notes'', Some ''Street''] \<and>
   \<not> item_in_row (''Price'', [''cost'']) [Some ''Notes'', Some ''Street''] \<and>
   item_in_row (''Notes'', []) [Some ''Notes'', Some ''Street''] \<and>
   find_header_row [(''Address'', []), (''Price'', [''cost''])] [(''Notes'', [])] 1
       [[Some ''Notes'', Some ''Street'']]
     = (None, [], [''Address'', ''Price''], []) \<and>
   parse_csv [(''Address'', []), (''Price'', [''cost''])] [(''Notes'', [])] 1
       [[Some ''Notes'', Some ''Street'']]
     = Error ''Required headers not found: Address, Price''"
proof -
  have d: "distinct (map fst ([(''Address'', []), (''Price'', [''cost''])] @ [(''Notes'', [])]))"
    by simp
  have ne: "[(''Address'', []), (''Price'', [''cost''])] \<noteq> ([] :: headers)"
    by simp
  have a: "\<not> item_in_row (''Address'', []) [Some ''Notes'', Some ''Street'']"
    by code_simp
  have p: "\<not> item_in_row (''Price'', [''cost'']) [Some ''Notes'', Some ''Street'']"
    by code_simp
  have n: "item_in_row (''Notes'', []) [Some ''Notes'', Some ''Street'']"
    by code_simp
  have h: "\<forall>item \<in> set [(''Address'', []), (''Price'', [''cost''])].
      \<forall>row \<in> set (head_rows 1 [[Some ''Notes'', Some ''Street'']]). \<not> item_in_row item row"
    using a p by (simp add: head_rows_def)
  show ?thesis
    using no_required_match_reports_all_required [OF d ne h] d a p n by simp
qed

text \<open>
  C4 (data start row), as the code has it. For a schema whose field names are unique
  across required and optional headers, and a scan window in which no row holds an alias
  of a header that an earlier row already matched: when some required header is matched
  in the window, the start row is one past the last row of the window that is the first
  to match some header, required or optional; when no required header is matched, the
  start row is None, whatever the optional headers matched.
\<close>

theorem start_row_follows_last_first_match_row:
  assumes "distinct (map fst (required @ optional))"
    and "no_alias_rematch (required @ optional) (head_rows max_rows df)"
  shows "((\<exists>item \<in> set required. \<exists>row \<in> set (head_rows max_rows df). item_in_row item row) \<longrightarrow>
      (\<exists>r < length (head_rows max_rows df).
         fst (find_header_row required optional max_rows df) = Some (r + 1) \<and>
         first_match_row (required @ optional) (head_rows max_rows df) r \<and>
         (\<forall>r' < length (head_rows max_rows df).
            r < r' \<longrightarrow> \<not> first_match_row (required @ optional) (head_rows max_rows df) r'))) \<and>
     (\<not> (\<exists>item \<in> set required. \<exists>row \<in> set (head_rows max_rows df). item_in_row item row) \<longrightarrow>
      fst (find_header_row required optional max_rows df) = None)"
proof -
  let ?rows = "head_rows max_rows df"
  have same: "\<And>r. r < length ?rows \<Longrightarrow>
      row_records (required @ optional) ?rows r = first_match_row (required @ optional) ?rows r"
    by (rule row_records_first_match [OF assms(2)])
  have "(\<exists>r < length ?rows.
         fst (find_header_row required optional max_rows df) = Some (r + 1) \<and>
         first_match_row (required @ optional) ?rows r \<and>
         (\<forall>r' < length ?rows. r < r' \<longrightarrow> \<not> first_match_row (required @ optional) ?rows r'))"
    if "\<exists>item \<in> set required. \<exists>row \<in> set ?rows. item_in_row item row"
  proof -
    from start_row_general [OF assms(1), of max_rows df, THEN conjunct1, THEN mp, OF that]
    obtain r where r: "r < length ?rows"
      "fst (find_header_row required optional max_rows df) = Some (r + 1)"
      "row_records (required @ optional) ?rows r"
      "\<forall>r' < length ?rows. r < r' \<longrightarrow> \<not> row_records (required @ optional) ?rows r'"
      by blast
    from r(1,3) have "first_match_row (required @ optional) ?rows r"
      by (simp add: same)
    moreover from r(4) have
      "\<forall>r' < length ?rows. r < r' \<longrightarrow> \<not> first_match_row (required @ optional) ?rows r'"
      by (simp add: same)
    ultimately show ?thesis using r(1,2) by blast
  qed
  moreover have "fst (find_header_row required optional max_rows df) = None"
    if "\<not> (\<exists>item \<in> set required. \<exists>row \<in> set ?rows. item_in_row item row)"
    using start_row_general [OF assms(1), of max_rows df, THEN conjunct2, THEN mp, OF that] .
  ultimately show ?thesis by blast
qed

theorem start_row_follows_last_first_match_row_witness:
  "distinct (map fst ([(''Address'', []), (''Price'', [''cost''])] @ [(''Notes'', [])])) \<and>
   no_alias_rematch ([(''Address'', []), (''Price'', [''cost''])] @ [(''Notes'', [])])
     (head_rows 3 [[Some ''Address'', Some ''Cost''], [Some ''notes'', None],
                   [Some ''1 Main St'', Some ''500000'']]) \<and>
   item_in_row (''Address'', []) [Some ''Address'', Some ''Cost''] \<and>
   find_header_row [(''Address'', []), (''Price'', [''cost''])] [(''Notes'', [])] 3
       [[Some ''Address'', Some ''Cost''], [Some ''notes'', None],
        [Some ''1 Main St'', Some ''500000'']]
     = (Some 2, [(''Address'', 0), (''Price'', 1)], [], [(''Notes'', 0)]) \<and>
   (\<exists>r < length (head_rows 3 [[Some ''Address'', Some ''Cost''], [Some ''notes'', None],
                                [Some ''1 Main St'', Some ''500000'']]).
      fst (find_header_row [(''Address'', []), (''Price'', [''cost''])] [(''Notes'', [])] 3
             [[Some ''Address'', Some ''Cost''], [Some ''notes'', None],
              [Some ''1 Main St'', Some ''500000'']])
        = Some (r + 1) \<and>
      first_match_row ([(''Address'', []), (''Price'', [''cost''])] @ [(''Notes'', [])])
        (head_rows 3 [[Some ''Address'', Some ''Cost''], [Some ''notes'', None],
                      [Some ''1 Main St'', Some ''500000'']]) r \<and>
      (\<forall>r' < length (head_rows 3 [[Some ''Address'', Some ''Cost''], [Some ''notes'', None],
                                    [Some ''1 Main St'', Some ''500000'']]).
         r < r' \<longrightarrow>
         \<not> first_match_row ([(''Address'', []), (''Price'', [''cost''])] @ [(''Notes'', [])])
             (head_rows 3 [[Some ''Address'', Some ''Cost''], [Some ''notes'', None],
                           [Some ''1 Main St'', Some ''500000'']]) r'))"
proof -
  let ?req = "[(''Address'', []), (''Price'', [''cost''])]"
  let ?opt = "[(''Notes'', [])]"
  let ?df = "[[Some ''Address'', Some ''Cost''], [Some ''notes'', None],
              [Some ''1 Main St'', Some ''500000'']]"
  have d: "distinct (map fst (?req @ ?opt))"
    by simp
  have f: "no_alias_rematch (?req @ ?opt) (head_rows 3 ?df)"
    by code_simp
  have a: "item_in_row (''Address'', []) [Some ''Address'', Some ''Cost'']"
    by code_simp
  then have m: "\<exists>item \<in> set ?req. \<exists>row \<in> set (head_rows 3 ?df). item_in_row item row"
    by (simp add: head_rows_def)
  have v: "find_header_row ?req ?opt 3 ?df
      = (Some 2, [(''Address'', 0), (''Price'', 1)], [], [(''Notes'', 0)])"
    by code_simp
  from start_row_follows_last_first_match_row [OF d f, THEN conjunct1, THEN mp, OF m] d f a v
  show ?thesis by blast
qed

text \<open>
  C4 as stated fails: row 0 holds the optional header Notes, so it contributes a match
  and the scan ends with last_match_row 0, but no required header is matched and the
  start row returned is None.
\<close>

theorem start_row_optional_only_counterexample:
  "first_match_row ([(''Address'', [])] @ [(''Notes'', [])]) (head_rows 5 [[Some ''Notes'']]) 0 \<and>
   last_match_row (scan_rows [(''Address'', [])] [(''Notes'', [])] (head_rows 5 [[Some ''Notes'']]))
     = Some 0 \<and>
   fst (find_header_row [(''Address'', [])] [(''Notes'', [])] 5 [[Some ''Notes'']]) = None"
  by code_simp

text \<open>
  C8 (canonical name before aliases). For a schema whose field names are unique across
  required and optional headers: when a header is not yet collected and the scanned row
  holds its normalized name, the index recorded by that row is a column holding the name,
  whether or not an alias of the header stands in another column of the row.
\<close>

theorem canonical_name_column_recorded:
  assumes "distinct (map fst (required @ optional))"
    and "(header, aliases) \<in> set (required @ optional)"
    and "collected_headers st header = None"
    and "Some (lower (strip header)) \<in> set (map normalize_cell row)"
  shows "\<exists>j < length row.
     collected_headers (scan_row required optional st (i, row)) header = Some j \<and>
     normalize_cell (row ! j) = Some (lower (strip header))"
proof -
  let ?hr = "map normalize_cell row"
  let ?j = "index_of ?hr (Some (lower (strip header)))"
  have "matched_name ?hr (collected_headers st) (header, aliases) = Some (lower (strip header))"
    using assms(3,4) by (simp add: matched_name_def)
  from scan_row_records_index [OF assms(1,2) this]
  have rec: "collected_headers (scan_row required optional st (i, row)) header = Some ?j"
    by simp
  have less: "?j < length row"
    using index_of_less [OF assms(4)] by simp
  have "?hr ! ?j = Some (lower (strip header))"
    by (rule nth_index_of [OF assms(4)])
  with less have "normalize_cell (row ! ?j) = Some (lower (strip header))"
    by simp
  with rec less show ?thesis by blast
qed

theorem canonical_name_column_recorded_witness:
  "distinct (map fst ([(''Price'', [''cost''])] @ [])) \<and>
   collected_headers (initial_state [(''Price'', [''cost''])]) ''Price'' = None \<and>
   Some (lower (strip ''Price'')) \<in> set (map normalize_cell [Some ''Cost'', Some ''PRICE '']) \<and>
   Some (lower ''cost'') \<in> set (map normalize_cell [Some ''Cost'', Some ''PRICE '']) \<and>
   collected_headers (scan_row [(''Price'', [''cost''])] []
       (initial_state [(''Price'', [''cost''])]) (0, [Some ''Cost'', Some ''PRICE ''])) ''Price''
     = Some 1 \<and>
   (\<exists>j < length [Some ''Cost'', Some ''PRICE ''].
      collected_headers (scan_row [(''Price'', [''cost''])] []
          (initial_state [(''Price'', [''cost''])]) (0, [Some ''Cost'', Some ''PRICE ''])) ''Price''
        = Some j \<and>
      normalize_cell ([Some ''Cost'', Some ''PRICE ''] ! j) = Some (lower (strip ''Price'')))"
proof -
  have d: "distinct (map fst ([(''Price'', [''cost''])] @ []))"
    by simp
  have m: "(''Price'', [''cost'']) \<in> set ([(''Price'', [''cost''])] @ [])"
    by simp
  have c: "collected_headers (initial_state [(''Price'', [''cost''])]) ''Price'' = None"
    by (simp add: initial_state_def)
  have n: "Some (lower (strip ''Price'')) \<in> set (map normalize_cell [Some ''Cost'', Some ''PRICE ''])"
    by code_simp
  have a: "Some (lower ''cost'') \<in> set (map normalize_cell [Some ''Cost'', Some ''PRICE ''])"
    by code_simp
  have v: "collected_headers (scan_row [(''Price'', [''cost''])] []
       (initial_state [(''Price'', [''cost''])]) (0, [Some ''Cost'', Some ''PRICE ''])) ''Price''
     = Some 1"
    by code_simp
  from canonical_name_column_recorded [OF d m c n, of 0] d c n a v
  show ?thesis by blast
qed

text \<open>
  C9 (first declared alias). For a schema whose field names are unique across required and
  optional headers: when a header is not yet collected and the scanned row does not hold
  its normalized name and holds an alias of it, the index recorded by that row is a column
  holding the first alias, in the order the aliases are declared, that the row holds.
\<close>

theorem first_declared_alias_column_recorded:
  assumes "distinct (map fst (required @ optional))"
    and "(header, before @ alias # after) \<in> set (required @ optional)"
    and "collected_headers st header = None"
    and "Some (lower (strip header)) \<notin> set (map normalize_cell row)"
    and "\<forall>a \<in> set before. Some (lower a) \<notin> set (map normalize_cell row)"
    and "Some (lower alias) \<in> set (map normalize_cell row)"
  shows "\<exists>j < length row.
     collected_headers (scan_row required optional st (i, row)) header = Some j \<and>
     normalize_cell (row ! j) = Some (lower alias)"
proof -
  let ?hr = "map normalize_cell row"
  let ?j = "index_of ?hr (Some (lower alias))"
  have "find (\<lambda>a. Some (lower a) \<in> set ?hr) (before @ alias # after) = Some alias"
    using assms(5,6) by (intro find_first_declared) auto
  then have "matched_name ?hr (collected_headers st) (header, before @ alias # after)
      = Some (lower alias)"
    using assms(4) by (simp add: matched_name_def)
  from scan_row_records_index [OF assms(1,2) this]
  have rec: "collected_headers (scan_row required optional st (i, row)) header = Some ?j"
    by simp
  have less: "?j < length row"
    using index_of_less [OF assms(6)] by simp
  have "?hr ! ?j = Some (lower alias)"
    by (rule nth_index_of [OF assms(6)])
  with less have "normalize_cell (row ! ?j) = Some (lower alias)"
    by simp
  with rec less show ?thesis by blast
qed

theorem first_declared_alias_column_recorded_witness:
  "distinct (map fst ([(''Price'', [''listing price'', ''cost'', ''sale price''])] @ [])) \<and>
   collected_headers (initial_state [(''Price'', [''listing price'', ''cost'', ''sale price''])])
     ''Price'' = None \<and>
   Some (lower (strip ''Price'')) \<notin> set (map normalize_cell [Some ''Sale Price'', Some ''Cost'']) \<and>
   Some (lower ''listing price'') \<notin> set (map normalize_cell [Some ''Sale Price'', Some ''Cost'']) \<and>
   Some (lower ''cost'') \<in> set (map normalize_cell [Some ''Sale Price'', Some ''Cost'']) \<and>
   Some (lower ''sale price'') \<in> set (map normalize_cell [Some ''Sale Price'', Some ''Cost'']) \<and>
   collected_headers (scan_row [(''Price'', [''listing price'', ''cost'', ''sale price''])] []
       (initial_state [(''Price'', [''listing price'', ''cost'', ''sale price''])])
       (0, [Some ''Sale Price'', Some ''Cost''])) ''Price'' = Some 1 \<and>
   (\<exists>j < length [Some ''Sale Price'', Some ''Cost''].
      collected_headers (scan_row [(''Price'', [''listing price'', ''cost'', ''sale price''])] []
          (initial_state [(''Price'', [''listing price'', ''cost'', ''sale price''])])
          (0, [Some ''Sale Price'', Some ''Cost''])) ''Price'' = Some j \<and>
      normalize_cell ([Some ''Sale Price'', Some ''Cost''] ! j) = Some (lower ''cost''))"
proof -
  let ?req = "[(''Price'', [''listing price'', ''cost'', ''sale price''])]"
  let ?row = "[Some ''Sale Price'', Some ''Cost'']"
  have d: "distinct (map fst (?req @ []))"
    by simp
  have m: "(''Price'', [''listing price''] @ ''cost'' # [''sale price'']) \<in> set (?req @ [])"
    by simp
  have c: "collected_headers (initial_state ?req) ''Price'' = None"
    by (simp add: initial_state_def)
  have n: "Some (lower (strip ''Price'')) \<notin> set (map normalize_cell ?row)"
    by code_simp
  have l: "Some (lower ''listing price'') \<notin> set (map normalize_cell ?row)"
    by code_simp
  then have b: "\<forall>a \<in> set [''listing price'']. Some (lower a) \<notin> set (map normalize_cell ?row)"
    by simp
  have a: "Some (lower ''cost'') \<in> set (map normalize_cell ?row)"
    by code_simp
  have a2: "Some (lower ''sale price'') \<in> set (map normalize_cell ?row)"
    by code_simp
  have v: "collected_headers (scan_row ?req [] (initial_state ?req) (0, ?row)) ''Price'' = Some 1"
    by code_simp
  from first_declared_alias_column_recorded [OF d m c n b a, of 0]
    d c n l a a2 v
  show ?thesis by blast
qed

text \<open>
  C10 (lowest column). For a schema whose field names are unique across required and
  optional headers, and a header of either kind: when the scanned row makes
  find_header_row look a name up for the header (\<open>matched_name\<close>: its normalized name, or
  the first alias the row holds), the index recorded by that row is the lowest column of
  the row whose normalized cell is that name.
\<close>

theorem lowest_matching_column_recorded:
  assumes "distinct (map fst (required @ optional))"
    and "item \<in> set (required @ optional)"
    and "matched_name (map normalize_cell row) (collected_headers st) item = Some name"
  shows "\<exists>j < length row.
     collected_headers (scan_row required optional st (i, row)) (fst item) = Some j \<and>
     normalize_cell (row ! j) = Some name \<and>
     (\<forall>k < j. normalize_cell (row ! k) \<noteq> Some name)"
proof -
  let ?hr = "map normalize_cell row"
  let ?j = "index_of ?hr (Some name)"
  have inrow: "Some name \<in> set ?hr"
    by (rule matched_name_in_row [OF assms(3)])
  have rec: "collected_headers (scan_row required optional st (i, row)) (fst item) = Some ?j"
    by (rule scan_row_records_index [OF assms])
  have less: "?j < length row"
    using index_of_less [OF inrow] by simp
  have "?hr ! ?j = Some name"
    by (rule nth_index_of [OF inrow])
  with less have here: "normalize_cell (row ! ?j) = Some name"
    by simp
  have "\<forall>k < ?j. normalize_cell (row ! k) \<noteq> Some name"
  proof (intro allI impI)
    fix k assume k: "k < ?j"
    then have "?hr ! k \<noteq> Some name" by (rule index_of_least)
    moreover from k less have "k < length row" by simp
    ultimately show "normalize_cell (row ! k) \<noteq> Some name" by simp
  qed
  with rec less here show ?thesis by blast
qed

theorem lowest_matching_column_recorded_witness:
  "distinct (map fst ([(''Price'', [''cost''])] @ [(''Notes'', [''description''])])) \<and>
   matched_name (map normalize_cell [Some ''x'', Some ''Description'', Some ''description''])
     (collected_headers (initial_state [(''Price'', [''cost''])])) (''Notes'', [''description''])
     = Some ''description'' \<and>
   collected_headers (scan_row [(''Price'', [''cost''])] [(''Notes'', [''description''])]
       (initial_state [(''Price'', [''cost''])])
       (0, [Some ''x'', Some ''Description'', Some ''description''])) ''Notes'' = Some 1 \<and>
   (\<exists>j < length [Some ''x'', Some ''Description'', Some ''description''].
      collected_headers (scan_row [(''Price'', [''cost''])] [(''Notes'', [''description''])]
          (initial_state [(''Price'', [''cost''])])
          (0, [Some ''x'', Some ''Description'', Some ''description''])) (fst (''Notes'', [''description'']))
        = Some j \<and>
      normalize_cell ([Some ''x'', Some ''Description'', Some ''description''] ! j)
        = Some ''description'' \<and>
      (\<forall>k < j. normalize_cell ([Some ''x'', Some ''Description'', Some ''description''] ! k)
         \<noteq> Some ''description''))"
proof -
  let ?req = "[(''Price'', [''cost''])]"
  let ?opt = "[(''Notes'', [''description''])]"
  let ?row = "[Some ''x'', Some ''Description'', Some ''description'']"
  have d: "distinct (map fst (?req @ ?opt))"
    by simp
  have m: "(''Notes'', [''description'']) \<in> set (?req @ ?opt)"
    by simp
  have n: "matched_name (map normalize_cell ?row) (collected_headers (initial_state ?req))
      (''Notes'', [''description'']) = Some ''description''"
    by code_simp
  have v: "collected_headers (scan_row ?req ?opt (initial_state ?req) (0, ?row)) ''Notes'' = Some 1"
    by code_simp
  from lowest_matching_column_recorded [OF d m n, of 0] d n v
  show ?thesis by blast
qed

text \<open>
  C7 (null and empty cells), as the code has it. A null cell (\<open>pd.notna\<close> false) becomes
  the marker None and matches nothing: every index find_header_row returns for a header
  is a column where some row of the scan window has a present cell whose normalized text
  equals the header's normalized name or one of its lowercased aliases. A present cell
  whose text normalizes to the empty string stays the empty string, so it can be such a
  cell only for a name or alias that is itself empty once normalized.
\<close>

theorem returned_index_points_at_present_cell:
  assumes "(header, j) \<in> set (fst (snd (find_header_row required optional max_rows df))) \<union>
                       set (snd (snd (snd (find_header_row required optional max_rows df))))"
  shows "\<exists>item \<in> set (required @ optional). fst item = header \<and>
     (\<exists>row \<in> set (head_rows max_rows df). j < length row \<and>
        (\<exists>s. row ! j = Some s \<and>
           (replace_newline (lower (strip s)) = lower (strip header) \<or>
            (\<exists>alias \<in> set (snd item). replace_newline (lower (strip s)) = lower alias))))"
proof -
  let ?st = "scan_rows required optional (head_rows max_rows df)"
  from assms have "(header, j) \<in> set (indices_of (collected_headers ?st) required) \<or>
      (header, j) \<in> set (indices_of (collected_headers ?st) optional)"
    by (auto simp: find_header_row_eq Let_def split: if_splits)
  then have "collected_headers ?st header = Some j"
    by (auto dest: indices_of_mem)
  then have "from_present_cell (required @ optional) (head_rows max_rows df) header j"
    by (rule from_present_cell_scan_rows)
  then show ?thesis
    unfolding from_present_cell_def by (fastforce split: option.splits)
qed

theorem returned_index_points_at_present_cell_witness:
  "(''Price'', 2) \<in>
     set (fst (snd (find_header_row [(''Price'', [''cost''])] [] 5 [[None, Some ''  '', Some ''Cost'']]))) \<union>
     set (snd (snd (snd (find_header_row [(''Price'', [''cost''])] [] 5
                           [[None, Some ''  '', Some ''Cost'']])))) \<and>
   (\<exists>item \<in> set ([(''Price'', [''cost''])] @ []). fst item = ''Price'' \<and>
     (\<exists>row \<in> set (head_rows 5 [[None, Some ''  '', Some ''Cost'']]). 2 < length row \<and>
        (\<exists>s. row ! 2 = Some s \<and>
           (replace_newline (lower (strip s)) = lower (strip ''Price'') \<or>
            (\<exists>alias \<in> set (snd item). replace_newline (lower (strip s)) = lower alias)))))"
proof -
  have "find_header_row [(''Price'', [''cost''])] [] 5 [[None, Some ''  '', Some ''Cost'']]
      = (Some 1, [(''Price'', 2)], [], [])"
    by code_simp
  then have m: "(''Price'', 2) \<in>
     set (fst (snd (find_header_row [(''Price'', [''cost''])] [] 5 [[None, Some ''  '', Some ''Cost'']]))) \<union>
     set (snd (snd (snd (find_header_row [(''Price'', [''cost''])] [] 5
                           [[None, Some ''  '', Some ''Cost'']]))))"
    by simp
  from returned_index_points_at_present_cell [OF m] m show ?thesis
    by blast
qed

text \<open>
  C7 as stated fails: the present cell \<open>'  '\<close> normalizes to the empty string, not to the
  marker None, and it matches the alias \<open>''\<close>; its column is recorded for Price.
\<close>

theorem blank_cell_matches_empty_alias_counterexample:
  "normalize_cell (Some ''  '') = Some [] \<and>
   find_header_row [(''Price'', [[]])] [] 5 [[Some ''x'', Some ''  '']]
     = (Some 1, [(''Price'', 1)], [], [])"
  by code_simp

text \<open>
  C2 (normalization), as the code has it. A cell is trimmed, lowercased and has its
  newlines replaced by spaces; a header name is trimmed and lowercased, an alias is
  lowercased, and neither has its newlines replaced. For a schema whose field names are
  unique across required and optional headers and a header whose aliases carry no leading
  or trailing whitespace: the header is collected from the scanned rows exactly when some
  present cell's normalized text equals the trimmed, lowercased header name or the
  trimmed, lowercased text of one of its aliases.
\<close>

theorem header_collected_iff_normalized_cell_equals_name:
  assumes "distinct (map fst (required @ optional))"
    and "(header, aliases) \<in> set (required @ optional)"
    and "\<forall>alias \<in> set aliases. strip alias = alias"
  shows "collected_headers (scan_rows required optional rows) header \<noteq> None \<longleftrightarrow>
     (\<exists>row \<in> set rows. \<exists>s. Some s \<in> set row \<and>
        (replace_newline (lower (strip s)) = lower (strip header) \<or>
         (\<exists>alias \<in> set aliases. replace_newline (lower (strip s)) = lower (strip alias))))"
proof -
  have "collected_headers (scan_rows required optional rows) header \<noteq> None \<longleftrightarrow>
      (\<exists>row \<in> set rows. item_in_row (header, aliases) row)"
    using collected_scan_rows_iff [OF assms(1,2), of rows] by simp
  also have "\<dots> \<longleftrightarrow> (\<exists>row \<in> set rows.
      (\<exists>s. Some s \<in> set row \<and> replace_newline (lower (strip s)) = lower (strip header)) \<or>
      (\<exists>alias \<in> set aliases.
         \<exists>s. Some s \<in> set row \<and> replace_newline (lower (strip s)) = lower alias))"
    unfolding item_in_row_def fst_conv snd_conv in_normalized_row_iff ..
  also have "\<dots> \<longleftrightarrow> (\<exists>row \<in> set rows. \<exists>s. Some s \<in> set row \<and>
        (replace_newline (lower (strip s)) = lower (strip header) \<or>
         (\<exists>alias \<in> set aliases. replace_newline (lower (strip s)) = lower (strip alias))))"
    using assms(3) by auto
  finally show ?thesis .
qed

theorem header_collected_iff_normalized_cell_equals_name_witness:
  "distinct (map fst ([(''Unit Price'', [''cost''])] @ [])) \<and>
   strip ''cost'' = ''cost'' \<and>
   replace_newline (lower (strip ('' UNIT'' @ [CHR 0x0A] @ ''PRICE ''))) = lower (strip ''Unit Price'') \<and>
   collected_headers (scan_rows [(''Unit Price'', [''cost''])] []
       [[Some ''x'', Some ('' UNIT'' @ [CHR 0x0A] @ ''PRICE '')]]) ''Unit Price'' = Some 1 \<and>
   (\<exists>row \<in> set [[Some ''x'', Some ('' UNIT'' @ [CHR 0x0A] @ ''PRICE '')]].
      \<exists>s. Some s \<in> set row \<and>
        (replace_newline (lower (strip s)) = lower (strip ''Unit Price'') \<or>
         (\<exists>alias \<in> set [''cost'']. replace_newline (lower (strip s)) = lower (strip alias))))"
proof -
  let ?req = "[(''Unit Price'', [''cost''])]"
  let ?rows = "[[Some ''x'', Some ('' UNIT'' @ [CHR 0x0A] @ ''PRICE '')]]"
  have d: "distinct (map fst (?req @ []))"
    by simp
  have m: "(''Unit Price'', [''cost'']) \<in> set (?req @ [])"
    by simp
  have c: "strip ''cost'' = ''cost''"
    by code_simp
  then have h: "\<forall>alias \<in> set [''cost'']. strip alias = alias"
    by simp
  have n: "replace_newline (lower (strip ('' UNIT'' @ [CHR 0x0A] @ ''PRICE '')))
      = lower (strip ''Unit Price'')"
    by code_simp
  have v: "collected_headers (scan_rows ?req [] ?rows) ''Unit Price'' = Some 1"
    by code_simp
  then have "collected_headers (scan_rows ?req [] ?rows) ''Unit Price'' \<noteq> None"
    by simp
  with header_collected_iff_normalized_cell_equals_name [OF d m h, of ?rows] d c n v
  show ?thesis by blast
qed

text \<open>
  C2 as stated fails: an alias with an embedded newline and a cell with the very same
  text have the same normalized form, but only the cell has its newline replaced, so the
  alias is not found in the row and Price stays missing.
\<close>

theorem alias_with_newline_counterexample:
  "replace_newline (lower (strip (''Unit'' @ [CHR 0x0A] @ ''Price''))) = ''unit price'' \<and>
   normalize_cell (Some (''Unit'' @ [CHR 0x0A] @ ''Price'')) = Some ''unit price'' \<and>
   find_header_row [(''Price'', [''Unit'' @ [CHR 0x0A] @ ''Price''])] [] 5
       [[Some (''Unit'' @ [CHR 0x0A] @ ''Price'')]]
     = (None, [], [''Price''], [])"
  by code_simp

end
